theory Spec2Isabelle
  imports Complex_Main "HOL-Library.Multiset" "HOL-Library.Sublist"
    "HOL-Library.Char_ord" "HOL-Library.List_Lexorder"
begin

section \<open>Values, records and tables\<close>

text \<open>
  The functions of the repository work on Python lists of dicts. A field value is one of
  the hashable scalars a record read from CSV or JSON holds: \<open>None\<close>, an integer or a
  string. Python's \<open>bool\<close> is a subclass of \<open>int\<close> and \<open>True\<close>, \<open>False\<close> are the
  integers 1 and 0 for \<open>==\<close>, \<open>hash\<close> and \<open><\<close>, so a boolean is the value \<open>PInt 1\<close>
  or \<open>PInt 0\<close>. Floats and nested containers are not part of the model.

  A record is a dict from field names to values: a partial map. A key that is present
  with the value \<open>None\<close> is \<open>Some PNone\<close>, an absent key is \<open>None\<close>. A table is a list
  of records.
\<close>

datatype pyval = PNone | PInt int | PStr string

datatype error = TypeError | KeyError | ValueError | ZeroDivisionError

type_synonym pyrecord = "string \<rightharpoonup> pyval"

type_synonym table = "pyrecord list"

text \<open>\<open>record.get(field)\<close>: the value at the key, \<open>None\<close> when the key is absent.\<close>

definition dict_get :: "pyrecord \<Rightarrow> string \<Rightarrow> pyval" where
  "dict_get r f = (case r f of None \<Rightarrow> PNone | Some v \<Rightarrow> v)"

section \<open>Testing, logging, configs: \<open>safe_division\<close>\<close>

text \<open>
  \<open>a / b\<close> on Python numbers raises \<open>ZeroDivisionError\<close> when \<open>b\<close> is zero. Numbers
  are rationals here; for a divisor other than zero the model returns the exact quotient
  (CPython rounds it to a double, which is outside the model).
\<close>

definition py_truediv :: "rat \<Rightarrow> rat \<Rightarrow> error + rat" where
  "py_truediv a b = (if b = 0 then Inl ZeroDivisionError else Inr (a / b))"


section \<open>Transformations and aggregations: \<open>calculate_average\<close>\<close>

text \<open>
  \<open>calculate_average(values)\<close>: 0 for the empty list, else \<open>sum(values) / len(values)\<close>.
\<close>

definition calculate_average :: "rat list \<Rightarrow> error + rat" where
  "calculate_average values =
     (if values = [] then Inr 0
      else py_truediv (sum_list values) (of_nat (length values)))"

section \<open>Python's \<open>sorted\<close>\<close>

text \<open>
  \<open>a < b\<close> on field values: integers compare by value, strings lexicographically by
  character code; every other pair (\<open>None\<close> with anything, also \<open>None\<close> with
  \<open>None\<close>, an integer with a string) raises \<open>TypeError\<close>.
\<close>

fun py_lt :: "pyval \<Rightarrow> pyval \<Rightarrow> error + bool" where
  "py_lt (PInt a) (PInt b) = Inr (a < b)"
| "py_lt (PStr a) (PStr b) = Inr (a < b)"
| "py_lt _ _ = Inl TypeError"

text \<open>
  \<open>sorted(xs, key=key)\<close> is a stable comparison sort that only asks \<open>key(y) < key(x)\<close>
  and stops with the exception of the first comparison that raises. It is modelled as
  the stable insertion sort over \<open>py_lt\<close>: an element goes in front of the first element
  of the sorted rest that is not smaller than it. A list of fewer than two elements is
  returned without any comparison.

  The builtin is not code of the repository, and CPython sorts with another algorithm
  (Timsort). The two agree on what the claims are about. Where no comparison raises,
  the keys are linearly ordered and every stable sort returns the same list. A comparison
  sort of two or more elements compares each element with some other one, and links
  all of them through its comparisons; a comparison raises exactly when one side is
  \<open>None\<close> or the two sides are an integer and a string, and then it raises
  \<open>TypeError\<close>. So both sorts raise \<open>TypeError\<close> exactly on the lists of two or more
  elements whose keys are not all integers or all strings, which is what
  \<open>order_by_returns_iff\<close> below proves of the model.
\<close>

fun py_insort :: "('a \<Rightarrow> pyval) \<Rightarrow> 'a \<Rightarrow> 'a list \<Rightarrow> error + 'a list" where
  "py_insort key x [] = Inr [x]"
| "py_insort key x (y # ys) =
     (case py_lt (key y) (key x) of
        Inl e \<Rightarrow> Inl e
      | Inr True \<Rightarrow> (case py_insort key x ys of Inl e \<Rightarrow> Inl e | Inr zs \<Rightarrow> Inr (y # zs))
      | Inr False \<Rightarrow> Inr (x # y # ys))"

fun py_sort :: "('a \<Rightarrow> pyval) \<Rightarrow> 'a list \<Rightarrow> error + 'a list" where
  "py_sort key [] = Inr []"
| "py_sort key (x # xs) =
     (case py_sort key xs of Inl e \<Rightarrow> Inl e | Inr ys \<Rightarrow> py_insort key x ys)"

text \<open>
  \<open>sorted(xs, key=key, reverse=reverse)\<close>: with \<open>reverse\<close> the list is reversed,
  sorted and reversed again, which keeps equal elements in their input order.
\<close>

definition sorted_py :: "'a list \<Rightarrow> ('a \<Rightarrow> pyval) \<Rightarrow> bool \<Rightarrow> error + 'a list" where
  "sorted_py xs key reverse =
     (if reverse
      then (case py_sort key (rev xs) of Inl e \<Rightarrow> Inl e | Inr ys \<Rightarrow> Inr (rev ys))
      else py_sort key xs)"

text \<open>Two values are of one orderable type: both integers or both strings.\<close>

fun same_kind :: "pyval \<Rightarrow> pyval \<Rightarrow> bool" where
  "same_kind (PInt a) (PInt b) = True"
| "same_kind (PStr a) (PStr b) = True"
| "same_kind _ _ = False"

section \<open>SQL-like logic and PySpark-style thinking: \<open>order_by\<close>, joins\<close>

text \<open>\<open>sorted(records, key=lambda x: x.get(field), reverse=not ascending)\<close>\<close>

definition order_by :: "table \<Rightarrow> string \<Rightarrow> bool \<Rightarrow> error + table" where
  "order_by records field ascending =
     sorted_py records (\<lambda>x. dict_get x field) (\<not> ascending)"

definition df_order_by :: "table \<Rightarrow> string \<Rightarrow> bool \<Rightarrow> error + table" where
  "df_order_by records field ascending =
     sorted_py records (\<lambda>x. dict_get x field) (\<not> ascending)"

text \<open>
  \<open>sort_records_by_field\<close> (transformations and aggregations) sorts the same way,
  ascending only, but reads the key with \<open>x.get(field, 0)\<close>: a record without the
  field has the key 0.
\<close>

definition sort_records_by_field :: "table \<Rightarrow> string \<Rightarrow> error + table" where
  "sort_records_by_field records field =
     sorted_py records (\<lambda>x. case x field of None \<Rightarrow> PInt 0 | Some v \<Rightarrow> v) False"

text \<open>
  \<open>{r[join_key]: r for r in right}\<close>: the records are stored in order under their key
  value, a later record replacing an earlier one; \<open>r[join_key]\<close> raises \<open>KeyError\<close>
  when the key is absent.
\<close>

fun right_lookup ::
  "table \<Rightarrow> string \<Rightarrow> (pyval \<rightharpoonup> pyrecord) \<Rightarrow> error + (pyval \<rightharpoonup> pyrecord)" where
  "right_lookup [] join_key m = Inr m"
| "right_lookup (r # right) join_key m =
     (case r join_key of
        None \<Rightarrow> Inl KeyError
      | Some v \<Rightarrow> right_lookup right join_key (m(v \<mapsto> r)))"

text \<open>
  The loop of \<open>inner_join\<close> (SQL-like logic): \<open>record.get(join_key)\<close> is looked up
  and, when found, \<open>{**record, **right_lookup[key_value]}\<close> is appended.
\<close>

fun inner_join_loop :: "table \<Rightarrow> string \<Rightarrow> (pyval \<rightharpoonup> pyrecord) \<Rightarrow> table" where
  "inner_join_loop [] join_key lookup = []"
| "inner_join_loop (rec # left) join_key lookup =
     (case lookup (dict_get rec join_key) of
        Some r \<Rightarrow> (rec ++ r) # inner_join_loop left join_key lookup
      | None \<Rightarrow> inner_join_loop left join_key lookup)"

definition inner_join :: "table \<Rightarrow> table \<Rightarrow> string \<Rightarrow> error + table" where
  "inner_join left right join_key =
     (case right_lookup right join_key Map.empty of
        Inl e \<Rightarrow> Inl e
      | Inr lookup \<Rightarrow> Inr (inner_join_loop left join_key lookup))"

text \<open>
  \<open>left_join\<close>: every left record is copied and updated with
  \<open>right_lookup.get(record.get(join_key), {})\<close>.
\<close>

definition left_join :: "table \<Rightarrow> table \<Rightarrow> string \<Rightarrow> error + table" where
  "left_join left right join_key =
     (case right_lookup right join_key Map.empty of
        Inl e \<Rightarrow> Inl e
      | Inr lookup \<Rightarrow>
          Inr (map (\<lambda>rec. rec ++ (case lookup (dict_get rec join_key) of
                                     None \<Rightarrow> Map.empty | Some r \<Rightarrow> r)) left))"

section \<open>Transformations and aggregations: \<open>inner_join\<close>\<close>

text \<open>
  The \<open>inner_join\<close> of this file reads the left key with \<open>l[key]\<close>, which raises
  \<open>KeyError\<close> on a left record without the key. The first such record stops the loop.
\<close>

fun inner_join_agg_loop ::
  "table \<Rightarrow> string \<Rightarrow> (pyval \<rightharpoonup> pyrecord) \<Rightarrow> error + table" where
  "inner_join_agg_loop [] key lookup = Inr []"
| "inner_join_agg_loop (l # left) key lookup =
     (case l key of
        None \<Rightarrow> Inl KeyError
      | Some v \<Rightarrow>
          (case inner_join_agg_loop left key lookup of
             Inl e \<Rightarrow> Inl e
           | Inr joined \<Rightarrow>
               Inr (case lookup v of Some r \<Rightarrow> (l ++ r) # joined | None \<Rightarrow> joined)))"

definition inner_join_agg :: "table \<Rightarrow> table \<Rightarrow> string \<Rightarrow> error + table" where
  "inner_join_agg left right key =
     (case right_lookup right key Map.empty of
        Inl e \<Rightarrow> Inl e
      | Inr lookup \<Rightarrow> inner_join_agg_loop left key lookup)"

section \<open>Data cleaning and validation\<close>

text \<open>\<open>remove_null_records\<close>: keep a record when \<open>record.get(field) is not None\<close>.\<close>

fun remove_null_records :: "table \<Rightarrow> string \<Rightarrow> table" where
  "remove_null_records [] field = []"
| "remove_null_records (rec # records) field =
     (if dict_get rec field \<noteq> PNone then rec # remove_null_records records field
      else remove_null_records records field)"

text \<open>
  \<open>remove_duplicates\<close>: the loop carries the set \<open>seen_keys\<close>; a record whose
  \<open>record.get(unique_key)\<close> is not in the set is appended and its key value added.
\<close>

fun remove_duplicates_loop :: "table \<Rightarrow> string \<Rightarrow> pyval set \<Rightarrow> table" where
  "remove_duplicates_loop [] unique_key seen_keys = []"
| "remove_duplicates_loop (rec # records) unique_key seen_keys =
     (let key_value = dict_get rec unique_key in
      if key_value \<notin> seen_keys
      then rec # remove_duplicates_loop records unique_key (insert key_value seen_keys)
      else remove_duplicates_loop records unique_key seen_keys)"

definition remove_duplicates :: "table \<Rightarrow> string \<Rightarrow> table" where
  "remove_duplicates records unique_key = remove_duplicates_loop records unique_key {}"

text \<open>\<open>is_numeric\<close>: \<open>isinstance(value, (int, float))\<close>; a \<open>bool\<close> is an \<open>int\<close>.\<close>

fun is_numeric :: "pyval \<Rightarrow> bool" where
  "is_numeric (PInt i) = True"
| "is_numeric _ = False"

subsection \<open>\<open>datetime.strptime(date_str, "%Y-%m-%d")\<close>\<close>

text \<open>
  The library call is not code of this repository; it is modelled after CPython's
  \<open>_strptime\<close>. The format becomes the regular expression
  \<open>(\d\d\d\d)-(1[0-2]|0[1-9]|[1-9])-(3[0-1]|[1-2]\d|0[1-9]|[1-9]| [1-9])\<close>, matched at
  the start of the string with the alternatives tried in order. No match, text left
  after the match, the year 0 and a day beyond the month's length all raise
  \<open>ValueError\<close>; an argument that is not a string raises \<open>TypeError\<close>. Characters are
  bytes, so only the ASCII digits count as digits.
\<close>

definition is_digit :: "char \<Rightarrow> bool" where
  "is_digit c = (c \<in> set ''0123456789'')"

definition digit_val :: "char \<Rightarrow> nat" where
  "digit_val c = of_char c - 48"

fun parse_year :: "string \<Rightarrow> (nat \<times> string) option" where
  "parse_year (a # b # c # d # rest) =
     (if is_digit a \<and> is_digit b \<and> is_digit c \<and> is_digit d
      then Some (1000 * digit_val a + 100 * digit_val b + 10 * digit_val c + digit_val d, rest)
      else None)"
| "parse_year _ = None"

text \<open>The ways the month and the day alternatives match a prefix, in the order tried.\<close>

definition month_alts :: "string \<Rightarrow> (nat \<times> string) list" where
  "month_alts s =
     (case s of
        a # b # rest \<Rightarrow>
          (if a = CHR ''1'' \<and> b \<in> set ''012'' then [(10 + digit_val b, rest)] else []) @
          (if a = CHR ''0'' \<and> b \<in> set ''123456789'' then [(digit_val b, rest)] else [])
      | _ \<Rightarrow> []) @
     (case s of
        a # rest \<Rightarrow> (if a \<in> set ''123456789'' then [(digit_val a, rest)] else [])
      | [] \<Rightarrow> [])"

definition day_alts :: "string \<Rightarrow> (nat \<times> string) list" where
  "day_alts s =
     (case s of
        a # b # rest \<Rightarrow>
          (if a = CHR ''3'' \<and> b \<in> set ''01'' then [(30 + digit_val b, rest)] else []) @
          (if a \<in> set ''12'' \<and> is_digit b then [(10 * digit_val a + digit_val b, rest)] else []) @
          (if a = CHR ''0'' \<and> b \<in> set ''123456789'' then [(digit_val b, rest)] else [])
      | _ \<Rightarrow> []) @
     (case s of
        a # rest \<Rightarrow> (if a \<in> set ''123456789'' then [(digit_val a, rest)] else [])
      | [] \<Rightarrow> []) @
     (case s of
        a # b # rest \<Rightarrow>
          (if a = CHR '' '' \<and> b \<in> set ''123456789'' then [(digit_val b, rest)] else [])
      | _ \<Rightarrow> [])"

fun first_match :: "('a \<Rightarrow> 'b option) \<Rightarrow> 'a list \<Rightarrow> 'b option" where
  "first_match f [] = None"
| "first_match f (x # xs) = (case f x of Some y \<Rightarrow> Some y | None \<Rightarrow> first_match f xs)"

text \<open>The match of the regular expression: year, month, day and the text left over.\<close>

definition regex_ymd :: "string \<Rightarrow> (nat \<times> nat \<times> nat \<times> string) option" where
  "regex_ymd s =
     (case parse_year s of
        None \<Rightarrow> None
      | Some (y, s1) \<Rightarrow>
          (case s1 of
             [] \<Rightarrow> None
           | c # s2 \<Rightarrow>
               if c \<noteq> CHR ''-'' then None
               else first_match
                 (\<lambda>(m, s3).
                    case s3 of
                      [] \<Rightarrow> None
                    | c' # s4 \<Rightarrow>
                        if c' \<noteq> CHR ''-'' then None
                        else first_match (\<lambda>(d, s5). Some (y, m, d, s5)) (day_alts s4))
                 (month_alts s2)))"

definition is_leap :: "nat \<Rightarrow> bool" where
  "is_leap y = (y mod 4 = 0 \<and> (y mod 100 \<noteq> 0 \<or> y mod 400 = 0))"

definition days_in_month :: "nat \<Rightarrow> nat \<Rightarrow> nat" where
  "days_in_month y m =
     (if m = 2 then (if is_leap y then 29 else 28)
      else if m \<in> {4, 6, 9, 11} then 30 else 31)"

definition strptime_ymd :: "pyval \<Rightarrow> error + (nat \<times> nat \<times> nat)" where
  "strptime_ymd v =
     (case v of
        PStr s \<Rightarrow>
          (case regex_ymd s of
             None \<Rightarrow> Inl ValueError
           | Some (y, m, d, rest) \<Rightarrow>
               if rest \<noteq> [] then Inl ValueError
               else if y < 1 \<or> days_in_month y m < d then Inl ValueError
               else Inr (y, m, d))
      | _ \<Rightarrow> Inl TypeError)"

text \<open>
  \<open>validate_date_format\<close>: \<open>True\<close> when the call returns, \<open>False\<close> in the handler of
  \<open>ValueError\<close>; any other exception propagates.
\<close>

definition validate_date_format :: "pyval \<Rightarrow> error + bool" where
  "validate_date_format date_str =
     (case strptime_ymd date_str of
        Inr d \<Rightarrow> Inr True
      | Inl ValueError \<Rightarrow> Inr False
      | Inl e \<Rightarrow> Inl e)"

subsection \<open>\<open>re.match(r"[^@]+@[^@]+\.[^@]+", email)\<close>\<close>

text \<open>
  The pattern matches at the start of the string: a longest non-empty run without \<open>@\<close>,
  an \<open>@\<close>, and then, inside the run without \<open>@\<close> that follows, a dot that is neither
  its first nor its last character. \<open>re.match\<close> raises \<open>TypeError\<close> on an argument
  that is not a string.
\<close>

definition email_match :: "string \<Rightarrow> bool" where
  "email_match email =
     (let local = takeWhile (\<lambda>c. c \<noteq> CHR ''@'') email;
          rest = dropWhile (\<lambda>c. c \<noteq> CHR ''@'') email;
          domain = takeWhile (\<lambda>c. c \<noteq> CHR ''@'') (tl rest)
      in local \<noteq> [] \<and> rest \<noteq> [] \<and> CHR ''.'' \<in> set (butlast (tl domain)))"

definition validate_email :: "pyval \<Rightarrow> error + bool" where
  "validate_email email =
     (case email of PStr s \<Rightarrow> Inr (email_match s) | _ \<Rightarrow> Inl TypeError)"

section \<open>Python basics: \<open>remove_duplicate_records\<close>\<close>

text \<open>
  The same loop with the fixed key \<open>customer_id\<close>, read with
  \<open>record["customer_id"]\<close>: a record without the key raises \<open>KeyError\<close>.
\<close>

fun remove_duplicate_records_loop :: "table \<Rightarrow> pyval set \<Rightarrow> error + table" where
  "remove_duplicate_records_loop [] seen_ids = Inr []"
| "remove_duplicate_records_loop (rec # records) seen_ids =
     (case rec ''customer_id'' of
        None \<Rightarrow> Inl KeyError
      | Some v \<Rightarrow>
          if v \<notin> seen_ids
          then (case remove_duplicate_records_loop records (insert v seen_ids) of
                  Inl e \<Rightarrow> Inl e
                | Inr unique_records \<Rightarrow> Inr (rec # unique_records))
          else remove_duplicate_records_loop records seen_ids)"

definition remove_duplicate_records :: "table \<Rightarrow> error + table" where
  "remove_duplicate_records records = remove_duplicate_records_loop records {}"

section \<open>Division by zero\<close>

lemma calculate_average_total: "\<exists>q. calculate_average values = Inr q"
  by (cases "values") (simp_all add: calculate_average_def py_truediv_def)


section \<open>Sorting\<close>

lemma py_insort_linorder:
  fixes g :: "'a \<Rightarrow> 'k::linorder"
  assumes "\<And>y. y \<in> set ys \<Longrightarrow> py_lt (key y) (key x) = Inr (g y < g x)"
  shows "py_insort key x ys = Inr (insort_key g x ys)"
  using assms
proof (induction ys)
  case Nil
  then show ?case by simp
next
  case (Cons y ys)
  have lt: "py_lt (key y) (key x) = Inr (g y < g x)"
    using Cons.prems by simp
  have ih: "py_insort key x ys = Inr (insort_key g x ys)"
    using Cons by simp
  show ?case
  proof (cases "g y < g x")
    case True
    then have "\<not> g x \<le> g y" by simp
    then show ?thesis using True lt ih by simp
  next
    case False
    then have "g x \<le> g y" by simp
    then show ?thesis using False lt by simp
  qed
qed

lemma py_sort_linorder:
  fixes g :: "'a \<Rightarrow> 'k::linorder"
  assumes "\<And>x y. x \<in> set xs \<Longrightarrow> y \<in> set xs \<Longrightarrow> py_lt (key x) (key y) = Inr (g x < g y)"
  shows "py_sort key xs = Inr (sort_key g xs)"
  using assms
proof (induction xs)
  case Nil
  then show ?case by simp
next
  case (Cons x xs)
  have "py_sort key xs = Inr (sort_key g xs)"
    using Cons by simp
  moreover have "py_insort key x (sort_key g xs) = Inr (insort_key g x (sort_key g xs))"
    by (rule py_insort_linorder) (simp add: Cons.prems)
  ultimately show ?case by simp
qed

lemma sorted_py_linorder:
  fixes g :: "'a \<Rightarrow> 'k::linorder"
  assumes "\<And>x y. x \<in> set xs \<Longrightarrow> y \<in> set xs \<Longrightarrow> py_lt (key x) (key y) = Inr (g x < g y)"
  shows "sorted_py xs key rv = Inr (if rv then rev (sort_key g (rev xs)) else sort_key g xs)"
proof -
  have a: "py_sort key xs = Inr (sort_key g xs)"
    using assms by (rule py_sort_linorder)
  have b: "py_sort key (rev xs) = Inr (sort_key g (rev xs))"
    by (rule py_sort_linorder) (simp add: assms)
  show ?thesis by (simp add: sorted_py_def a b)
qed

text \<open>
  The result of a sort with a linearly ordered key: a permutation, in key order (in the
  direction asked for), with the records of one key in their input order.
\<close>

lemma linorder_sort_props:
  fixes g :: "'a \<Rightarrow> 'k::linorder"
  defines "out \<equiv> \<lambda>rv xs. if rv then rev (sort_key g (rev xs)) else sort_key g xs"
  shows "mset (out rv xs) = mset xs"
    and "sorted_wrt (\<lambda>a b. if rv then g b \<le> g a else g a \<le> g b) (out rv xs)"
    and "filter (\<lambda>y. g y = k) (out rv xs) = filter (\<lambda>y. g y = k) xs"
proof -
  show "mset (out rv xs) = mset xs" by (simp add: out_def)
  have s: "sorted_wrt (\<lambda>a b. g a \<le> g b) (sort_key g ys)" for ys
    using sorted_sort_key[of g ys] by (simp add: sorted_map)
  show "sorted_wrt (\<lambda>a b. if rv then g b \<le> g a else g a \<le> g b) (out rv xs)"
  proof (cases rv)
    case True
    then show ?thesis using s[of "rev xs"] by (simp add: out_def sorted_wrt_rev)
  next
    case False
    then show ?thesis using s[of xs] by (simp add: out_def)
  qed
  have "filter (\<lambda>y. g y = k) (rev (sort_key g (rev xs))) = filter (\<lambda>y. g y = k) xs"
    by (simp add: rev_filter[symmetric] sort_key_stable)
  then show "filter (\<lambda>y. g y = k) (out rv xs) = filter (\<lambda>y. g y = k) xs"
    by (simp add: out_def sort_key_stable)
qed


lemma order_by_linorder:
  fixes g :: "pyrecord \<Rightarrow> 'k::linorder"
  assumes cmp: "\<And>x y. x \<in> set T \<Longrightarrow> y \<in> set T \<Longrightarrow>
      py_lt (dict_get x f) (dict_get y f) = Inr (g x < g y)"
    and eq: "\<And>x y. x \<in> set T \<Longrightarrow> y \<in> set T \<Longrightarrow> (g x = g y) = (dict_get x f = dict_get y f)"
  shows "\<exists>out. order_by T f asc = Inr out \<and> df_order_by T f asc = Inr out \<and> mset out = mset T \<and>
      sorted_wrt (\<lambda>a b. py_lt (dict_get (if asc then b else a) f)
                               (dict_get (if asc then a else b) f) = Inr False) out \<and>
      (\<forall>v. filter (\<lambda>r. dict_get r f = v) out = filter (\<lambda>r. dict_get r f = v) T)"
proof -
  define out where "out = (if \<not> asc then rev (sort_key g (rev T)) else sort_key g T)"
  have run: "sorted_py T (\<lambda>x. dict_get x f) (\<not> asc) = Inr out"
    unfolding out_def by (rule sorted_py_linorder) (rule cmp)
  have perm: "mset out = mset T"
    unfolding out_def by (rule linorder_sort_props(1))
  then have st: "set out = set T"
    by (metis set_mset_mset)
  have srt: "sorted_wrt (\<lambda>a b. if \<not> asc then g b \<le> g a else g a \<le> g b) out"
    unfolding out_def by (rule linorder_sort_props(2))
  have srt': "sorted_wrt (\<lambda>a b. py_lt (dict_get (if asc then b else a) f)
                               (dict_get (if asc then a else b) f) = Inr False) out"
  proof (rule sorted_wrt_mono_rel[OF _ srt])
    fix a b
    assume a: "a \<in> set out" and b: "b \<in> set out"
      and le: "if \<not> asc then g b \<le> g a else g a \<le> g b"
    show "py_lt (dict_get (if asc then b else a) f) (dict_get (if asc then a else b) f) = Inr False"
    proof (cases asc)
      case True
      then have "\<not> g b < g a" using le by simp
      then show ?thesis using True cmp[of b a] a b st by simp
    next
      case False
      then have "\<not> g a < g b" using le by simp
      then show ?thesis using False cmp[of a b] a b st by simp
    qed
  qed
  have stab: "filter (\<lambda>r. dict_get r f = v) out = filter (\<lambda>r. dict_get r f = v) T" for v
  proof (cases "\<exists>x\<in>set T. dict_get x f = v")
    case True
    then obtain x where x: "x \<in> set T" "dict_get x f = v" by blast
    have "filter (\<lambda>r. dict_get r f = v) out = filter (\<lambda>r. g r = g x) out"
      by (rule filter_cong) (use eq x st in auto)
    also have "\<dots> = filter (\<lambda>r. g r = g x) T"
      unfolding out_def by (rule linorder_sort_props(3))
    also have "\<dots> = filter (\<lambda>r. dict_get r f = v) T"
      by (rule filter_cong) (use eq x in auto)
    finally show ?thesis .
  next
    case False
    then have "filter (\<lambda>r. dict_get r f = v) T = []" by (simp add: filter_empty_conv)
    moreover have "filter (\<lambda>r. dict_get r f = v) out = []"
      using False st by (simp add: filter_empty_conv)
    ultimately show ?thesis by simp
  qed
  show ?thesis
    using run perm srt' stab by (auto simp: order_by_def df_order_by_def)
qed

lemma same_kind_cases:
  assumes "\<And>x y. x \<in> set T \<Longrightarrow> y \<in> set T \<Longrightarrow> same_kind (key x) (key y)"
  shows "(\<forall>x\<in>set T. \<exists>i. key x = PInt i) \<or> (\<forall>x\<in>set T. \<exists>s. key x = PStr s)"
proof (cases T)
  case Nil
  then show ?thesis by simp
next
  case (Cons a as)
  have a: "same_kind (key a) (key x)" if "x \<in> set T" for x
    using assms[of a x] that Cons by simp
  show ?thesis
  proof (cases "key a")
    case PNone
    then show ?thesis using a[of a] Cons by simp
  next
    case (PInt i)
    have "\<exists>j. key x = PInt j" if "x \<in> set T" for x
      using a[OF that] PInt by (cases "key x") auto
    then show ?thesis by blast
  next
    case (PStr s)
    have "\<exists>t. key x = PStr t" if "x \<in> set T" for x
      using a[OF that] PStr by (cases "key x") auto
    then show ?thesis by blast
  qed
qed

text \<open>
  Where the sort returns: on fewer than two records, and on records whose sort keys are
  all integers or all strings.
\<close>

lemma order_by_same_kind:
  assumes "length T \<le> 1 \<or>
      (\<forall>x\<in>set T. \<forall>y\<in>set T. same_kind (dict_get x f) (dict_get y f))"
  shows "\<exists>out. order_by T f asc = Inr out \<and> df_order_by T f asc = Inr out \<and> mset out = mset T \<and>
      sorted_wrt (\<lambda>a b. py_lt (dict_get (if asc then b else a) f)
                               (dict_get (if asc then a else b) f) = Inr False) out \<and>
      (\<forall>v. filter (\<lambda>r. dict_get r f = v) out = filter (\<lambda>r. dict_get r f = v) T)"
proof (cases "\<forall>x\<in>set T. \<forall>y\<in>set T. same_kind (dict_get x f) (dict_get y f)")
  case True
  then have "(\<forall>x\<in>set T. \<exists>i. dict_get x f = PInt i) \<or> (\<forall>x\<in>set T. \<exists>s. dict_get x f = PStr s)"
    by (intro same_kind_cases) blast
  then show ?thesis
  proof
    assume ints: "\<forall>x\<in>set T. \<exists>i. dict_get x f = PInt i"
    show ?thesis
    proof (rule order_by_linorder[where g = "\<lambda>r. case dict_get r f of PInt i \<Rightarrow> i | _ \<Rightarrow> 0"])
      fix x y assume "x \<in> set T" "y \<in> set T"
      then obtain i j where "dict_get x f = PInt i" "dict_get y f = PInt j"
        using ints by blast
      then show "py_lt (dict_get x f) (dict_get y f) =
          Inr ((case dict_get x f of PInt i \<Rightarrow> i | _ \<Rightarrow> 0) < (case dict_get y f of PInt i \<Rightarrow> i | _ \<Rightarrow> 0))"
        and "((case dict_get x f of PInt i \<Rightarrow> i | _ \<Rightarrow> 0) = (case dict_get y f of PInt i \<Rightarrow> i | _ \<Rightarrow> 0))
          = (dict_get x f = dict_get y f)"
        by simp_all
    qed
  next
    assume strs: "\<forall>x\<in>set T. \<exists>s. dict_get x f = PStr s"
    show ?thesis
    proof (rule order_by_linorder[where g = "\<lambda>r. case dict_get r f of PStr s \<Rightarrow> s | _ \<Rightarrow> []"])
      fix x y assume "x \<in> set T" "y \<in> set T"
      then obtain s t where "dict_get x f = PStr s" "dict_get y f = PStr t"
        using strs by blast
      then show "py_lt (dict_get x f) (dict_get y f) =
          Inr ((case dict_get x f of PStr s \<Rightarrow> s | _ \<Rightarrow> []) < (case dict_get y f of PStr s \<Rightarrow> s | _ \<Rightarrow> []))"
        and "((case dict_get x f of PStr s \<Rightarrow> s | _ \<Rightarrow> []) = (case dict_get y f of PStr s \<Rightarrow> s | _ \<Rightarrow> []))
          = (dict_get x f = dict_get y f)"
        by simp_all
    qed
  qed
next
  case False
  then have "length T \<le> 1" using assms by blast
  then consider "T = []" | x where "T = [x]"
    by (cases T) (auto simp: le_Suc_eq)
  then show ?thesis
    by cases (auto simp: order_by_def df_order_by_def sorted_py_def)
qed


lemma py_lt_error: "py_lt a b = Inl e \<Longrightarrow> e = TypeError"
  by (cases a; cases b) auto

lemma py_insort_error: "py_insort key x ys = Inl e \<Longrightarrow> e = TypeError"
  by (induction ys) (auto split: sum.splits bool.splits dest: py_lt_error)

lemma py_sort_error: "py_sort key xs = Inl e \<Longrightarrow> e = TypeError"
  by (induction xs) (auto split: sum.splits dest: py_insort_error)

lemma sorted_py_error: "sorted_py xs key rv = Inl e \<Longrightarrow> e = TypeError"
  by (auto simp: sorted_py_def split: if_splits sum.splits dest: py_sort_error)

lemma py_insort_mset: "py_insort key x ys = Inr zs \<Longrightarrow> mset zs = add_mset x (mset ys)"
proof (induction ys arbitrary: zs)
  case Nil
  then show ?case by auto
next
  case (Cons y ys)
  show ?case
  proof (cases "py_lt (key y) (key x)")
    case (Inl e)
    then show ?thesis using Cons.prems by simp
  next
    case (Inr b)
    show ?thesis
    proof (cases b)
      case True
      then obtain zs' where z: "py_insort key x ys = Inr zs'" "zs = y # zs'"
        using Cons.prems Inr by (auto split: sum.splits)
      then show ?thesis using Cons.IH[of zs'] by simp
    next
      case False
      then show ?thesis using Cons.prems Inr by auto
    qed
  qed
qed

lemma py_sort_mset: "py_sort key xs = Inr ys \<Longrightarrow> mset ys = mset xs"
proof (induction xs arbitrary: ys)
  case Nil
  then show ?case by simp
next
  case (Cons x xs)
  then obtain ys' where y: "py_sort key xs = Inr ys'" "py_insort key x ys' = Inr ys"
    by (auto split: sum.splits)
  then show ?case using Cons.IH[of ys'] py_insort_mset[of key x ys' ys] by simp
qed

lemma py_lt_Inr_same_kind: "py_lt a b = Inr v \<Longrightarrow> same_kind a b"
  by (cases a; cases b) auto

lemma same_kind_trans: "same_kind a b \<Longrightarrow> same_kind b c \<Longrightarrow> same_kind a c"
  by (cases a; cases b; cases c) auto

lemma same_kind_sym: "same_kind a b \<Longrightarrow> same_kind b a"
  by (cases a; cases b) auto

lemma py_insort_head: "py_insort key x (y # ys) = Inr zs \<Longrightarrow> same_kind (key y) (key x)"
  by (cases "py_lt (key y) (key x)") (auto dest: py_lt_Inr_same_kind)

text \<open>
  A sort of two or more elements that returns has compared every element with another
  one, so all keys are of one orderable type.
\<close>

lemma py_sort_same_kind:
  "py_sort key xs = Inr ys \<Longrightarrow> 2 \<le> length xs \<Longrightarrow> x \<in> set xs \<Longrightarrow> y \<in> set xs \<Longrightarrow>
     same_kind (key x) (key y)"
proof (induction xs arbitrary: ys x y)
  case Nil
  then show ?case by simp
next
  case (Cons a xs)
  obtain ys' where s: "py_sort key xs = Inr ys'" and i: "py_insort key a ys' = Inr ys"
    using Cons.prems(1) by (auto split: sum.splits)
  have ne: "xs \<noteq> []" using Cons.prems(2) by auto
  have m: "mset ys' = mset xs" using s by (rule py_sort_mset)
  then have st: "set ys' = set xs" by (metis set_mset_mset)
  then obtain b bs where ys': "ys' = b # bs" using ne by (cases ys') auto
  have ab: "same_kind (key b) (key a)" using i ys' py_insort_head by metis
  have b_in: "b \<in> set xs" using st ys' by auto
  have all_b: "same_kind (key b) (key z)" if "z \<in> set xs" for z
  proof (cases "2 \<le> length xs")
    case True
    show ?thesis using Cons.IH[OF s True b_in that] .
  next
    case False
    then have "length xs = 1" using ne by (cases xs) (auto simp: not_le Suc_le_eq)
    then have "z = b" using that b_in by (cases xs) auto
    then show ?thesis using ab by (metis same_kind_sym same_kind_trans)
  qed
  have all: "same_kind (key b) (key z)" if "z \<in> set (a # xs)" for z
    using that ab all_b by auto
  show ?case
    using all[OF Cons.prems(3)] all[OF Cons.prems(4)] same_kind_sym same_kind_trans by blast
qed

lemma sorted_py_same_kind:
  assumes "sorted_py xs key rv = Inr ys" "2 \<le> length xs" "x \<in> set xs" "y \<in> set xs"
  shows "same_kind (key x) (key y)"
proof (cases rv)
  case True
  then obtain zs where "py_sort key (rev xs) = Inr zs"
    using assms(1) by (auto simp: sorted_py_def split: sum.splits)
  then show ?thesis
    using py_sort_same_kind[of key "rev xs" zs x y] assms by simp
next
  case False
  then have "py_sort key xs = Inr ys" using assms(1) by (simp add: sorted_py_def)
  then show ?thesis using py_sort_same_kind[of key xs ys x y] assms by simp
qed

text \<open>The tables on which \<open>order_by\<close> returns, exactly.\<close>

lemma order_by_returns_iff:
  "(\<exists>out. order_by T f asc = Inr out) \<longleftrightarrow>
     (length T \<le> 1 \<or> (\<forall>x\<in>set T. \<forall>y\<in>set T. same_kind (dict_get x f) (dict_get y f)))"
proof
  assume "\<exists>out. order_by T f asc = Inr out"
  then obtain out where o: "sorted_py T (\<lambda>x. dict_get x f) (\<not> asc) = Inr out"
    by (auto simp: order_by_def)
  show "length T \<le> 1 \<or> (\<forall>x\<in>set T. \<forall>y\<in>set T. same_kind (dict_get x f) (dict_get y f))"
  proof (cases "2 \<le> length T")
    case True
    then show ?thesis using sorted_py_same_kind[OF o True] by blast
  next
    case False
    then show ?thesis by simp
  qed
next
  assume "length T \<le> 1 \<or> (\<forall>x\<in>set T. \<forall>y\<in>set T. same_kind (dict_get x f) (dict_get y f))"
  then show "\<exists>out. order_by T f asc = Inr out"
    using order_by_same_kind[of T f asc] by blast
qed

text \<open>
  A record without the sort field has the key \<open>None\<close>, which no comparison accepts: among
  two or more records it makes the sort raise.
\<close>

lemma order_by_missing_field_raises:
  assumes "2 \<le> length T" "r \<in> set T" "dict_get r f = PNone"
  shows "order_by T f asc = Inl TypeError"
proof (cases "order_by T f asc")
  case (Inl e)
  then show ?thesis using sorted_py_error[of T _ "\<not> asc" e] by (simp add: order_by_def)
next
  case (Inr out)
  then have "length T \<le> 1 \<or> (\<forall>x\<in>set T. \<forall>y\<in>set T. same_kind (dict_get x f) (dict_get y f))"
    using order_by_returns_iff[of T f asc] by blast
  then have "same_kind (dict_get r f) (dict_get r f)" using assms by auto
  then show ?thesis using assms(3) by simp
qed

text \<open>
  Claim C1. For every table and field name, \<open>order_by\<close> and \<open>df_order_by\<close> sort the
  records by the value of the field, ascending or descending, and a record without the
  field is ordered null-low, before all records that have a value when ascending. The
  code does not do this: it reads the key with \<open>x.get(field)\<close>, which gives \<open>None\<close>
  for a record without the field, and the comparison of that \<open>None\<close> with the value of
  another record raises. On \<open>[{"a": 1}, {}]\<close> sorted by \<open>a\<close>, where the claim has
  \<open>[{}, {"a": 1}]\<close>, both functions raise \<open>TypeError\<close>, in either direction.
\<close>

theorem order_by_missing_field_type_error:
  "order_by [[''a'' \<mapsto> PInt 1], Map.empty] ''a'' True = Inl TypeError \<and>
   df_order_by [[''a'' \<mapsto> PInt 1], Map.empty] ''a'' True = Inl TypeError \<and>
   order_by [[''a'' \<mapsto> PInt 1], Map.empty] ''a'' False = Inl TypeError \<and>
   df_order_by [[''a'' \<mapsto> PInt 1], Map.empty] ''a'' False = Inl TypeError"
  by (simp add: order_by_def df_order_by_def sorted_py_def dict_get_def)

text \<open>
  The sibling \<open>sort_records_by_field\<close> gives the record without the field a key that can
  be compared, and returns on the same table with that record first.
\<close>

lemma sort_records_by_field_missing_field:
  "sort_records_by_field [[''a'' \<mapsto> PInt 1], Map.empty] ''a'' =
     Inr [Map.empty, [''a'' \<mapsto> PInt 1]]"
  by (simp add: sort_records_by_field_def sorted_py_def)




section \<open>Joins\<close>

lemma find_rev_last:
  "find P (rev xs) = (if \<exists>x\<in>set xs. P x then Some (last (filter P xs)) else None)"
  by (induction xs rule: rev_induct) auto

lemma find_snoc:
  "find P (xs @ [x]) =
     (case find P xs of Some y \<Rightarrow> Some y | None \<Rightarrow> if P x then Some x else None)"
  by (induction xs) auto

lemma right_lookup_all_keys:
  assumes "\<forall>r\<in>set R. r k \<noteq> None"
  shows "right_lookup R k m =
     Inr (\<lambda>v. case find (\<lambda>r. r k = Some v) (rev R) of Some r \<Rightarrow> Some r | None \<Rightarrow> m v)"
  using assms
proof (induction R arbitrary: m)
  case Nil
  then show ?case by simp
next
  case (Cons r R)
  then obtain w where w: "r k = Some w" by auto
  have ih: "right_lookup R k (m(w \<mapsto> r)) =
      Inr (\<lambda>v. case find (\<lambda>r. r k = Some v) (rev R) of Some r \<Rightarrow> Some r | None \<Rightarrow> (m(w \<mapsto> r)) v)"
    using Cons by simp
  have "(\<lambda>v. case find (\<lambda>r. r k = Some v) (rev R) of Some r \<Rightarrow> Some r | None \<Rightarrow> (m(w \<mapsto> r)) v)
      = (\<lambda>v. case find (\<lambda>r. r k = Some v) (rev (r # R)) of Some r \<Rightarrow> Some r | None \<Rightarrow> m v)"
    by (rule ext) (auto simp: find_snoc w split: option.splits)
  then show ?case using ih w by simp
qed

text \<open>
  With the key in every right record, the lookup built by the joins maps a key value of
  the right table to the last record that has it, and nothing else.
\<close>

lemma right_lookup_last:
  assumes "\<forall>r\<in>set R. r k \<noteq> None"
  shows "right_lookup R k Map.empty =
     Inr (\<lambda>v. if v \<in> (\<lambda>r. dict_get r k) ` set R
              then Some (last (filter (\<lambda>r. dict_get r k = v) R)) else None)"
proof -
  have eq: "(r k = Some v) = (dict_get r k = v)" if "r \<in> set R" for r v
    using assms that by (auto simp: dict_get_def)
  have "find (\<lambda>r. r k = Some v) (rev R) =
      (if v \<in> (\<lambda>r. dict_get r k) ` set R
       then Some (last (filter (\<lambda>r. dict_get r k = v) R)) else None)" for v
  proof -
    have f: "filter (\<lambda>r. r k = Some v) R = filter (\<lambda>r. dict_get r k = v) R"
      by (rule filter_cong) (simp_all add: eq)
    have "(\<exists>x\<in>set R. x k = Some v) = (v \<in> (\<lambda>r. dict_get r k) ` set R)"
      using eq by auto
    then show ?thesis by (simp add: find_rev_last f)
  qed
  then have "(\<lambda>v. case find (\<lambda>r. r k = Some v) (rev R) of Some r \<Rightarrow> Some r | None \<Rightarrow> Map.empty v)
      = (\<lambda>v. if v \<in> (\<lambda>r. dict_get r k) ` set R
              then Some (last (filter (\<lambda>r. dict_get r k = v) R)) else None)"
    by (intro ext) simp
  then show ?thesis using right_lookup_all_keys[OF assms, of Map.empty] by simp
qed

lemma inner_join_loop_filter:
  "inner_join_loop L k (\<lambda>v. if v \<in> S then Some (g v) else None) =
     map (\<lambda>l. l ++ g (dict_get l k)) (filter (\<lambda>l. dict_get l k \<in> S) L)"
  by (induction L) auto

lemma inner_join_agg_loop_keys:
  assumes "\<forall>l\<in>set L. l k \<noteq> None"
  shows "inner_join_agg_loop L k lookup = Inr (inner_join_loop L k lookup)"
  using assms by (induction L) (auto simp: dict_get_def split: option.splits)

lemma joins_characterisation:
  assumes "\<forall>r\<in>set R. r k \<noteq> None"
  shows "inner_join L R k =
      Inr (map (\<lambda>l. l ++ last (filter (\<lambda>r. dict_get r k = dict_get l k) R))
            (filter (\<lambda>l. dict_get l k \<in> (\<lambda>r. dict_get r k) ` set R) L))"
    and "left_join L R k =
      Inr (map (\<lambda>l. if dict_get l k \<in> (\<lambda>r. dict_get r k) ` set R
                    then l ++ last (filter (\<lambda>r. dict_get r k = dict_get l k) R) else l) L)"
    and "(\<forall>l\<in>set L. l k \<noteq> None) \<Longrightarrow> inner_join_agg L R k = inner_join L R k"
proof -
  note lk = right_lookup_last[OF assms]
  show "inner_join L R k =
      Inr (map (\<lambda>l. l ++ last (filter (\<lambda>r. dict_get r k = dict_get l k) R))
            (filter (\<lambda>l. dict_get l k \<in> (\<lambda>r. dict_get r k) ` set R) L))"
    by (simp add: inner_join_def lk inner_join_loop_filter)
  show "left_join L R k =
      Inr (map (\<lambda>l. if dict_get l k \<in> (\<lambda>r. dict_get r k) ` set R
                    then l ++ last (filter (\<lambda>r. dict_get r k = dict_get l k) R) else l) L)"
    by (simp add: left_join_def lk)
  show "inner_join_agg L R k = inner_join L R k" if "\<forall>l\<in>set L. l k \<noteq> None"
    by (simp add: inner_join_agg_def inner_join_def lk inner_join_agg_loop_keys[OF that])
qed

text \<open>
  Claim C2, as amended. For all tables \<open>L\<close> and \<open>R\<close> and every join key \<open>k\<close> that
  every record of \<open>R\<close> has, \<open>inner_join\<close> of the SQL-like file returns a table; its
  length is the number of records of \<open>L\<close> whose value at \<open>k\<close> (as \<open>get\<close> reads it) is
  a \<open>k\<close>-value of \<open>R\<close>; and the output is these records of \<open>L\<close>, in order, each merged
  with a record of \<open>R\<close>, so that no other left record contributes. The \<open>inner_join\<close>
  of the transformations file returns the same table when every record of \<open>L\<close> has
  the key \<open>k\<close> as well.
\<close>

theorem inner_join_size:
  assumes "\<forall>r\<in>set R. r k \<noteq> None"
  shows "\<exists>out. inner_join L R k = Inr out \<and>
      ((\<forall>l\<in>set L. l k \<noteq> None) \<longrightarrow> inner_join_agg L R k = Inr out) \<and>
      length out = length (filter (\<lambda>l. dict_get l k \<in> (\<lambda>r. dict_get r k) ` set R) L) \<and>
      (\<exists>rs. length rs = length out \<and> set rs \<subseteq> set R \<and>
         out = map2 (++) (filter (\<lambda>l. dict_get l k \<in> (\<lambda>r. dict_get r k) ` set R) L) rs)"
proof -
  define ms where "ms = filter (\<lambda>l. dict_get l k \<in> (\<lambda>r. dict_get r k) ` set R) L"
  define g where "g = (\<lambda>l. last (filter (\<lambda>r. dict_get r k = dict_get l k) R))"
  define out where "out = map (\<lambda>l. l ++ g l) ms"
  have run: "inner_join L R k = Inr out"
    unfolding out_def ms_def g_def by (rule joins_characterisation(1)[OF assms])
  have agg: "inner_join_agg L R k = Inr out" if "\<forall>l\<in>set L. l k \<noteq> None"
    using joins_characterisation(3)[OF assms that] run by simp
  have len: "length out = length ms" by (simp add: out_def)
  have g_in: "g l \<in> set R" if "l \<in> set ms" for l
  proof -
    have "filter (\<lambda>r. dict_get r k = dict_get l k) R \<noteq> []"
      using that by (auto simp: ms_def filter_empty_conv)
    then have "g l \<in> set (filter (\<lambda>r. dict_get r k = dict_get l k) R)"
      unfolding g_def by (rule last_in_set)
    then show ?thesis by simp
  qed
  have m2: "out = map2 (++) ms (map g ms)"
    by (simp add: out_def zip_map2 zip_same_conv_map comp_def)
  have "length (map g ms) = length out \<and> set (map g ms) \<subseteq> set R \<and> out = map2 (++) ms (map g ms)"
    using len g_in m2 by auto
  then have "\<exists>rs. length rs = length out \<and> set rs \<subseteq> set R \<and> out = map2 (++) ms rs"
    by blast
  then show ?thesis using run agg len unfolding ms_def by blast
qed

theorem inner_join_size_witness:
  "\<exists>out. inner_join [[''id'' \<mapsto> PInt 1], [''id'' \<mapsto> PInt 2], [''n'' \<mapsto> PInt 0]]
        [[''id'' \<mapsto> PInt 1, ''x'' \<mapsto> PInt 7]] ''id'' = Inr out \<and> length out = 1"
  using inner_join_size[of "[[''id'' \<mapsto> PInt 1, ''x'' \<mapsto> PInt 7]]" "''id''"
      "[[''id'' \<mapsto> PInt 1], [''id'' \<mapsto> PInt 2], [''n'' \<mapsto> PInt 0]]"]
  by (auto simp: dict_get_def)

text \<open>
  The claim as stated fails for the \<open>inner_join\<close> of the transformations file: every
  record of the right table has the key, the left record does not, and \<open>l[key]\<close>
  raises \<open>KeyError\<close> where the claim has the record left out of the result.
\<close>

theorem inner_join_agg_counterexample:
  "list_all (\<lambda>r. r ''id'' \<noteq> None) [[''id'' \<mapsto> PInt 1]] \<and>
   inner_join_agg [[''name'' \<mapsto> PStr ''a'']] [[''id'' \<mapsto> PInt 1]] ''id'' = Inl KeyError"
  by (simp add: inner_join_agg_def)

text \<open>
  Claim C5. For all tables \<open>L\<close> and \<open>R\<close> and every join key \<open>k\<close> that every record
  of \<open>R\<close> has, \<open>left_join\<close> returns one output record per record of \<open>L\<close>, in input
  order: the output has the length of \<open>L\<close>, its \<open>i\<close>-th record is the \<open>i\<close>-th record of
  \<open>L\<close> updated with a record of \<open>R\<close> or with nothing, and where the \<open>k\<close>-value of the
  left record has no match in \<open>R\<close> it is the left record itself, with no field added.
\<close>

theorem left_join_keeps_left:
  assumes "\<forall>r\<in>set R. r k \<noteq> None"
  shows "\<exists>out. left_join L R k = Inr out \<and> length out = length L \<and>
      (\<forall>i<length L.
         (dict_get (L ! i) k \<notin> (\<lambda>r. dict_get r k) ` set R \<longrightarrow> out ! i = L ! i) \<and>
         (\<exists>r\<in>insert Map.empty (set R). out ! i = L ! i ++ r))"
proof -
  define g where "g = (\<lambda>l. last (filter (\<lambda>r. dict_get r k = dict_get l k) R))"
  define out where "out = map (\<lambda>l. if dict_get l k \<in> (\<lambda>r. dict_get r k) ` set R
                    then l ++ g l else l) L"
  have run: "left_join L R k = Inr out"
    unfolding out_def g_def by (rule joins_characterisation(2)[OF assms])
  have g_in: "g l \<in> set R" if "dict_get l k \<in> (\<lambda>r. dict_get r k) ` set R" for l
  proof -
    have "filter (\<lambda>r. dict_get r k = dict_get l k) R \<noteq> []"
      using that by (auto simp: filter_empty_conv)
    then have "g l \<in> set (filter (\<lambda>r. dict_get r k = dict_get l k) R)"
      unfolding g_def by (rule last_in_set)
    then show ?thesis by simp
  qed
  have pt: "(dict_get (L ! i) k \<notin> (\<lambda>r. dict_get r k) ` set R \<longrightarrow> out ! i = L ! i) \<and>
         (\<exists>r\<in>insert Map.empty (set R). out ! i = L ! i ++ r)" if "i < length L" for i
  proof (cases "dict_get (L ! i) k \<in> (\<lambda>r. dict_get r k) ` set R")
    case True
    then have "out ! i = L ! i ++ g (L ! i)" using that by (simp add: out_def)
    then show ?thesis using True g_in[OF True] by blast
  next
    case False
    then have "out ! i = L ! i" using that by (simp add: out_def)
    then show ?thesis using False by simp
  qed
  have "length out = length L" by (simp add: out_def)
  then show ?thesis using run pt by blast
qed

theorem left_join_keeps_left_witness:
  "\<exists>out. left_join [[''id'' \<mapsto> PInt 1], [''id'' \<mapsto> PInt 2]]
        [[''id'' \<mapsto> PInt 1, ''x'' \<mapsto> PInt 7]] ''id'' = Inr out \<and> length out = 2 \<and>
      out ! 1 = [''id'' \<mapsto> PInt 2]"
  using left_join_keeps_left[of "[[''id'' \<mapsto> PInt 1, ''x'' \<mapsto> PInt 7]]" "''id''"
      "[[''id'' \<mapsto> PInt 1], [''id'' \<mapsto> PInt 2]]"]
  by (auto simp: dict_get_def)

text \<open>
  Claim C6. For all tables \<open>L\<close> and \<open>R\<close> and every join key \<open>k\<close> that every record
  of \<open>R\<close> has: in \<open>inner_join\<close> and in \<open>left_join\<close> a left record with a match is
  merged with the last record of \<open>R\<close> that has its \<open>k\<close>-value, and every field of that
  right record has the right record's value in the merged record, also when the left
  record has the field.
\<close>

theorem join_last_right_wins:
  assumes "\<forall>r\<in>set R. r k \<noteq> None"
  shows "\<exists>oi ol. inner_join L R k = Inr oi \<and> left_join L R k = Inr ol \<and>
      oi = map (\<lambda>l. l ++ last (filter (\<lambda>r. dict_get r k = dict_get l k) R))
             (filter (\<lambda>l. dict_get l k \<in> (\<lambda>r. dict_get r k) ` set R) L) \<and>
      (\<forall>i<length L. dict_get (L ! i) k \<in> (\<lambda>r. dict_get r k) ` set R \<longrightarrow>
          ol ! i = L ! i ++ last (filter (\<lambda>r. dict_get r k = dict_get (L ! i) k) R)) \<and>
      (\<forall>l x v. last (filter (\<lambda>r. dict_get r k = dict_get l k) R) x = Some v \<longrightarrow>
          (l ++ last (filter (\<lambda>r. dict_get r k = dict_get l k) R)) x = Some v)"
  by (simp add: joins_characterisation(1,2)[OF assms])

theorem join_last_right_wins_witness:
  "\<exists>oi ol. inner_join [[''id'' \<mapsto> PInt 1, ''x'' \<mapsto> PInt 0]]
        [[''id'' \<mapsto> PInt 1, ''x'' \<mapsto> PInt 7], [''id'' \<mapsto> PInt 1, ''x'' \<mapsto> PInt 8]] ''id'' = Inr oi \<and>
      left_join [[''id'' \<mapsto> PInt 1, ''x'' \<mapsto> PInt 0]]
        [[''id'' \<mapsto> PInt 1, ''x'' \<mapsto> PInt 7], [''id'' \<mapsto> PInt 1, ''x'' \<mapsto> PInt 8]] ''id'' = Inr ol \<and>
      oi = [[''id'' \<mapsto> PInt 1, ''x'' \<mapsto> PInt 0] ++ [''id'' \<mapsto> PInt 1, ''x'' \<mapsto> PInt 8]] \<and>
      ol ! 0 = [''id'' \<mapsto> PInt 1, ''x'' \<mapsto> PInt 0] ++ [''id'' \<mapsto> PInt 1, ''x'' \<mapsto> PInt 8] \<and>
      (oi ! 0) ''x'' = Some (PInt 8)"
  using join_last_right_wins[of "[[''id'' \<mapsto> PInt 1, ''x'' \<mapsto> PInt 7], [''id'' \<mapsto> PInt 1, ''x'' \<mapsto> PInt 8]]"
      "''id''" "[[''id'' \<mapsto> PInt 1, ''x'' \<mapsto> PInt 0]]"]
  by (auto simp: dict_get_def)

section \<open>Null removal and deduplication\<close>

lemma remove_null_records_filter:
  "remove_null_records T f = filter (\<lambda>r. dict_get r f \<noteq> PNone) T"
  by (induction T) auto

lemma dict_get_not_None: "dict_get r f \<noteq> PNone \<Longrightarrow> \<exists>v. r f = Some v \<and> v \<noteq> PNone"
  by (cases "r f") (auto simp: dict_get_def)

text \<open>
  Claim C4. For every table \<open>T\<close> and field \<open>f\<close>, every record of
  \<open>remove_null_records(T, f)\<close> has the key \<open>f\<close> with a value other than \<open>None\<close>, and the
  result is a subsequence of \<open>T\<close> in the order of \<open>T\<close>: the records of \<open>T\<close> whose
  value at \<open>f\<close> is not null.
\<close>

theorem remove_null_records_spec:
  "(\<forall>r\<in>set (remove_null_records T f). \<exists>v. r f = Some v \<and> v \<noteq> PNone) \<and>
   subseq (remove_null_records T f) T \<and>
   remove_null_records T f = filter (\<lambda>r. dict_get r f \<noteq> PNone) T"
  by (auto simp: remove_null_records_filter dest: dict_get_not_None)

theorem remove_null_records_spec_witness:
  "list_all (\<lambda>r. \<exists>v. r ''a'' = Some v \<and> v \<noteq> PNone)
     (remove_null_records [[''a'' \<mapsto> PInt 1], [''a'' \<mapsto> PNone], Map.empty, [''a'' \<mapsto> PInt 2]] ''a'') \<and>
   subseq (remove_null_records [[''a'' \<mapsto> PInt 1], [''a'' \<mapsto> PNone], Map.empty, [''a'' \<mapsto> PInt 2]] ''a'')
     [[''a'' \<mapsto> PInt 1], [''a'' \<mapsto> PNone], Map.empty, [''a'' \<mapsto> PInt 2]] \<and>
   length (remove_null_records [[''a'' \<mapsto> PInt 1], [''a'' \<mapsto> PNone], Map.empty, [''a'' \<mapsto> PInt 2]] ''a'') = 2"
  using remove_null_records_spec[of "[[''a'' \<mapsto> PInt 1], [''a'' \<mapsto> PNone], Map.empty, [''a'' \<mapsto> PInt 2]]" "''a''"]
  by (simp add: list_all_iff dict_get_def)

lemma loop_find:
  "find (\<lambda>r. dict_get r k = v) (remove_duplicates_loop T k seen) =
     (if v \<in> seen then None else find (\<lambda>r. dict_get r k = v) T)"
proof (induction T arbitrary: seen)
  case Nil
  then show ?case by simp
next
  case (Cons r T)
  show ?case
  proof (cases "dict_get r k \<in> seen")
    case True
    then show ?thesis using Cons.IH[of seen] by auto
  next
    case False
    then show ?thesis using Cons.IH[of "insert (dict_get r k) seen"] by (auto simp: Let_def)
  qed
qed

lemma loop_keys:
  "(\<lambda>r. dict_get r k) ` set (remove_duplicates_loop T k seen) \<inter> seen = {}"
proof (induction T arbitrary: seen)
  case Nil
  then show ?case by simp
next
  case (Cons r T)
  show ?case
  proof (cases "dict_get r k \<in> seen")
    case True
    then show ?thesis using Cons.IH[of seen] by simp
  next
    case False
    then show ?thesis using Cons.IH[of "insert (dict_get r k) seen"] by (auto simp: Let_def)
  qed
qed

lemma loop_distinct:
  "distinct (map (\<lambda>r. dict_get r k) (remove_duplicates_loop T k seen))"
proof (induction T arbitrary: seen)
  case Nil
  then show ?case by simp
next
  case (Cons r T)
  show ?case
  proof (cases "dict_get r k \<in> seen")
    case True
    then show ?thesis using Cons.IH[of seen] by simp
  next
    case False
    have "dict_get r k \<notin> (\<lambda>r. dict_get r k) ` set (remove_duplicates_loop T k (insert (dict_get r k) seen))"
      using loop_keys[of k T "insert (dict_get r k) seen"] by blast
    then show ?thesis using False Cons.IH[of "insert (dict_get r k) seen"] by (simp add: Let_def)
  qed
qed

lemma loop_subseq: "subseq (remove_duplicates_loop T k seen) T"
  by (induction T arbitrary: seen) (auto simp: Let_def)

text \<open>
  Claim C3. For every table \<open>T\<close> and key field \<open>k\<close>, the key values of the records of
  \<open>remove_duplicates(T, k)\<close> are pairwise distinct (at most one record per value); for
  every value, the record of the result with that value is the first record of \<open>T\<close>
  with it (and there is none when \<open>T\<close> has none); the result is a subsequence of
  \<open>T\<close>. On the table of the example the result is the first and the third record.
\<close>

theorem remove_duplicates_first_occurrence:
  "distinct (map (\<lambda>r. dict_get r k) (remove_duplicates T k)) \<and>
   (\<forall>v. find (\<lambda>r. dict_get r k = v) (remove_duplicates T k) = find (\<lambda>r. dict_get r k = v) T) \<and>
   subseq (remove_duplicates T k) T \<and>
   remove_duplicates
     [[''id'' \<mapsto> PInt 1, ''amt'' \<mapsto> PInt 10], [''id'' \<mapsto> PInt 1, ''amt'' \<mapsto> PInt 20],
      [''id'' \<mapsto> PInt 2, ''amt'' \<mapsto> PInt 5]] ''id'' =
     [[''id'' \<mapsto> PInt 1, ''amt'' \<mapsto> PInt 10], [''id'' \<mapsto> PInt 2, ''amt'' \<mapsto> PInt 5]]"
proof -
  have ex: "remove_duplicates
     [[''id'' \<mapsto> PInt 1, ''amt'' \<mapsto> PInt 10], [''id'' \<mapsto> PInt 1, ''amt'' \<mapsto> PInt 20],
      [''id'' \<mapsto> PInt 2, ''amt'' \<mapsto> PInt 5]] ''id'' =
     [[''id'' \<mapsto> PInt 1, ''amt'' \<mapsto> PInt 10], [''id'' \<mapsto> PInt 2, ''amt'' \<mapsto> PInt 5]]"
    by (simp add: remove_duplicates_def dict_get_def)
  show ?thesis
    unfolding remove_duplicates_def[of T k]
    using ex by (simp add: loop_distinct loop_subseq loop_find)
qed

lemma filter_key_distinct:
  "distinct (map key xs) \<Longrightarrow>
     filter (\<lambda>r. key r = v) xs = (case find (\<lambda>r. key r = v) xs of None \<Rightarrow> [] | Some r \<Rightarrow> [r])"
proof (induction xs)
  case Nil
  then show ?case by simp
next
  case (Cons x xs)
  show ?case
  proof (cases "key x = v")
    case True
    have "key y \<noteq> v" if "y \<in> set xs" for y
      using Cons.prems True that by (metis distinct.simps(2) image_eqI list.simps(9) set_map)
    then have "filter (\<lambda>r. key r = v) xs = []"
      by (simp add: filter_empty_conv)
    then show ?thesis using True by simp
  next
    case False
    then show ?thesis using Cons by simp
  qed
qed

lemma take1_filter:
  "take 1 (filter P xs) = (case find P xs of None \<Rightarrow> [] | Some r \<Rightarrow> [r])"
  by (induction xs) auto

lemma find_stronger:
  "find Q xs = Some r \<Longrightarrow> P r \<Longrightarrow> (\<And>x. P x \<Longrightarrow> Q x) \<Longrightarrow> find P xs = Some r"
  by (induction xs) (auto split: if_splits)

lemma absent_key_None: "r k = None \<Longrightarrow> dict_get r k = PNone"
  by (simp add: dict_get_def)

text \<open>
  The records without the key that survive deduplication: the first record of the table
  whose key value is \<open>None\<close>, if it is one without the key.
\<close>

lemma remove_duplicates_absent:
  "filter (\<lambda>r. r k = None) (remove_duplicates T k) =
     (case find (\<lambda>r. dict_get r k = PNone) T of
        None \<Rightarrow> []
      | Some r \<Rightarrow> if r k = None then [r] else [])"
proof -
  let ?out = "remove_duplicates T k"
  have d: "distinct (map (\<lambda>r. dict_get r k) ?out)"
    by (simp add: remove_duplicates_def loop_distinct)
  have f: "find (\<lambda>r. dict_get r k = PNone) ?out = find (\<lambda>r. dict_get r k = PNone) T"
    by (simp add: remove_duplicates_def loop_find)
  have "filter (\<lambda>r. r k = None) ?out =
      filter (\<lambda>r. r k = None) (filter (\<lambda>r. dict_get r k = PNone) ?out)"
    by (auto simp: absent_key_None intro: filter_cong)
  also have "\<dots> = filter (\<lambda>r. r k = None)
      (case find (\<lambda>r. dict_get r k = PNone) T of None \<Rightarrow> [] | Some r \<Rightarrow> [r])"
    using filter_key_distinct[OF d, of PNone] f by simp
  also have "\<dots> = (case find (\<lambda>r. dict_get r k = PNone) T of
        None \<Rightarrow> [] | Some r \<Rightarrow> if r k = None then [r] else [])"
    by (simp split: option.splits)
  finally show ?thesis .
qed

text \<open>
  What holds of the records without the key whatever the table: at most one survives,
  and only the first of them can.
\<close>

lemma remove_duplicates_keyless_bounds:
  "length (filter (\<lambda>r. r k = None) (remove_duplicates T k)) \<le> 1 \<and>
   prefix (filter (\<lambda>r. r k = None) (remove_duplicates T k)) (take 1 (filter (\<lambda>r. r k = None) T)) \<and>
   (\<forall>r\<in>set T. r k = None \<longrightarrow> dict_get r k = PNone) \<and>
   (list_all (\<lambda>r. r k \<noteq> Some PNone) T \<longrightarrow>
      filter (\<lambda>r. r k = None) (remove_duplicates T k) = take 1 (filter (\<lambda>r. r k = None) T))"
proof -
  note a = remove_duplicates_absent[of k T]
  have len: "length (filter (\<lambda>r. r k = None) (remove_duplicates T k)) \<le> 1"
    unfolding a by (simp split: option.splits)
  have pre: "prefix (filter (\<lambda>r. r k = None) (remove_duplicates T k))
      (take 1 (filter (\<lambda>r. r k = None) T))"
  proof (cases "find (\<lambda>r. dict_get r k = PNone) T")
    case None
    then show ?thesis unfolding a by simp
  next
    case (Some r)
    show ?thesis
    proof (cases "r k = None")
      case True
      have "find (\<lambda>r. r k = None) T = Some r"
        using find_stronger[of "\<lambda>r. dict_get r k = PNone" T r "\<lambda>r. r k = None"] Some True
        by (simp add: absent_key_None)
      then show ?thesis unfolding a take1_filter using Some True by simp
    next
      case False
      then have "filter (\<lambda>r. r k = None) (remove_duplicates T k) = []"
        unfolding a using Some by simp
      then show ?thesis by simp
    qed
  qed
  have eq: "filter (\<lambda>r. r k = None) (remove_duplicates T k) = take 1 (filter (\<lambda>r. r k = None) T)"
    if h: "list_all (\<lambda>r. r k \<noteq> Some PNone) T"
  proof -
    have iff: "(dict_get r k = PNone) = (r k = None)" if "r \<in> set T" for r
      using h that by (cases "r k") (auto simp: dict_get_def list_all_iff)
    have "find (\<lambda>r. dict_get r k = PNone) T = find (\<lambda>r. r k = None) T"
      by (rule find_cong) (simp_all add: iff)
    moreover have "r k = None" if "find (\<lambda>r. r k = None) T = Some r" for r
      using that by (auto simp: find_Some_iff)
    ultimately show ?thesis
      unfolding a take1_filter by (auto split: option.splits)
  qed
  show ?thesis using len pre eq by (auto simp: absent_key_None)
qed

lemma remove_duplicates_null_keyed:
  "filter (\<lambda>r. dict_get r k = PNone) (remove_duplicates T k) =
     take 1 (filter (\<lambda>r. dict_get r k = PNone) T)"
proof -
  have d: "distinct (map (\<lambda>r. dict_get r k) (remove_duplicates T k))"
    by (simp add: remove_duplicates_def loop_distinct)
  have f: "find (\<lambda>r. dict_get r k = PNone) (remove_duplicates T k) =
      find (\<lambda>r. dict_get r k = PNone) T"
    by (simp add: remove_duplicates_def loop_find)
  have "filter (\<lambda>r. dict_get r k = PNone) (remove_duplicates T k) =
      (case find (\<lambda>r. dict_get r k = PNone) T of None \<Rightarrow> [] | Some r \<Rightarrow> [r])"
    using filter_key_distinct[OF d, of PNone] f by simp
  then show ?thesis unfolding take1_filter .
qed

text \<open>
  Claim C10, as amended. For every table \<open>T\<close> and key field \<open>k\<close>, \<open>remove_duplicates\<close>
  gives every record without the key \<open>k\<close> the key \<open>None\<close>, which is also the key of a
  record that has \<open>k\<close> with the value \<open>None\<close>. Of all the records of \<open>T\<close> with the key
  \<open>None\<close> exactly the first survives. So the records without the key in the result are:
  that first record, if it is one without the key, and no other. At most one record
  without the key survives, it can only be the first such record of \<open>T\<close>, all later ones
  are dropped, and the first one does survive when no record of \<open>T\<close> has \<open>k\<close> with an
  explicit \<open>None\<close>.
\<close>

theorem remove_duplicates_null_key:
  "(\<forall>r\<in>set T. r k = None \<longrightarrow> dict_get r k = PNone) \<and>
   filter (\<lambda>r. dict_get r k = PNone) (remove_duplicates T k) =
     take 1 (filter (\<lambda>r. dict_get r k = PNone) T) \<and>
   filter (\<lambda>r. r k = None) (remove_duplicates T k) =
     filter (\<lambda>r. r k = None) (take 1 (filter (\<lambda>r. dict_get r k = PNone) T)) \<and>
   length (filter (\<lambda>r. r k = None) (remove_duplicates T k)) \<le> 1 \<and>
   prefix (filter (\<lambda>r. r k = None) (remove_duplicates T k)) (take 1 (filter (\<lambda>r. r k = None) T)) \<and>
   (list_all (\<lambda>r. r k \<noteq> Some PNone) T \<longrightarrow>
      filter (\<lambda>r. r k = None) (remove_duplicates T k) = take 1 (filter (\<lambda>r. r k = None) T))"
proof -
  have a: "filter (\<lambda>r. r k = None) (remove_duplicates T k) =
     filter (\<lambda>r. r k = None) (take 1 (filter (\<lambda>r. dict_get r k = PNone) T))"
    unfolding remove_duplicates_absent take1_filter by (simp split: option.splits)
  show ?thesis
    using remove_duplicates_keyless_bounds[of k T] remove_duplicates_null_keyed[of k T] a
    by blast
qed

theorem remove_duplicates_null_key_witness:
  "filter (\<lambda>r. r ''id'' = None)
     (remove_duplicates [[''id'' \<mapsto> PInt 1], [''a'' \<mapsto> PInt 1], [''a'' \<mapsto> PInt 2], [''id'' \<mapsto> PInt 1]] ''id'') =
   take 1 (filter (\<lambda>r. r ''id'' = None)
     [[''id'' \<mapsto> PInt 1], [''a'' \<mapsto> PInt 1], [''a'' \<mapsto> PInt 2], [''id'' \<mapsto> PInt 1]]) \<and>
   length (filter (\<lambda>r. r ''id'' = None)
     (remove_duplicates [[''id'' \<mapsto> PInt 1], [''a'' \<mapsto> PInt 1], [''a'' \<mapsto> PInt 2], [''id'' \<mapsto> PInt 1]] ''id'')) = 1 \<and>
   dict_get [''a'' \<mapsto> PInt 1] ''id'' = PNone"
  using remove_duplicates_null_key[of
      "[[''id'' \<mapsto> PInt 1], [''a'' \<mapsto> PInt 1], [''a'' \<mapsto> PInt 2], [''id'' \<mapsto> PInt 1]]" "''id''"]
  by (simp add: dict_get_def)

text \<open>
  The claim as stated fails: in \<open>[{"id": None}, {}]\<close> the second record is the first
  one without the key \<open>id\<close>, and it does not survive: the first record has taken the key
  \<open>None\<close>. No record without the key is in the result.
\<close>

theorem remove_duplicates_explicit_null_counterexample:
  "find (\<lambda>r. r ''id'' = None) [[''id'' \<mapsto> PNone], Map.empty] = Some Map.empty \<and>
   remove_duplicates [[''id'' \<mapsto> PNone], Map.empty] ''id'' = [[''id'' \<mapsto> PNone]] \<and>
   filter (\<lambda>r. r ''id'' = None) (remove_duplicates [[''id'' \<mapsto> PNone], Map.empty] ''id'') = []"
  by (simp add: remove_duplicates_def dict_get_def)

text \<open>
  \<open>remove_duplicate_records\<close> is \<open>remove_duplicates\<close> at the key \<open>customer_id\<close> on the
  tables in which every record has that key; on the others it raises \<open>KeyError\<close>.
\<close>

lemma remove_duplicate_records_loop_eq:
  "\<forall>r\<in>set T. r ''customer_id'' \<noteq> None \<Longrightarrow>
     remove_duplicate_records_loop T seen = Inr (remove_duplicates_loop T ''customer_id'' seen)"
  by (induction T arbitrary: seen) (auto simp: dict_get_def Let_def)

lemma remove_duplicate_records_eq:
  "\<forall>r\<in>set T. r ''customer_id'' \<noteq> None \<Longrightarrow>
     remove_duplicate_records T = Inr (remove_duplicates T ''customer_id'')"
  by (simp add: remove_duplicate_records_def remove_duplicates_def remove_duplicate_records_loop_eq)

section \<open>Validators\<close>

lemma strptime_ymd_str_error: "strptime_ymd (PStr s) = Inl e \<Longrightarrow> e = ValueError"
  by (auto simp: strptime_ymd_def split: option.splits prod.splits if_splits)

lemma strptime_ymd_not_str: "(\<And>s. v \<noteq> PStr s) \<Longrightarrow> strptime_ymd v = Inl TypeError"
  by (cases v) (auto simp: strptime_ymd_def)

lemma validate_date_format_str:
  "validate_date_format (PStr s) = Inr (\<exists>d. strptime_ymd (PStr s) = Inr d)"
proof (cases "strptime_ymd (PStr s)")
  case (Inl e)
  then have "e = ValueError" by (rule strptime_ymd_str_error)
  then show ?thesis using Inl by (simp add: validate_date_format_def)
next
  case (Inr d)
  then have "(\<exists>d. strptime_ymd (PStr s) = Inr d) = True" by blast
  then show ?thesis using Inr by (simp only: validate_date_format_def sum.case)
qed

text \<open>A value that is not a string makes both pattern validators raise.\<close>

lemma validators_not_str:
  assumes "\<And>s. v \<noteq> PStr s"
  shows "validate_date_format v = Inl TypeError" and "validate_email v = Inl TypeError"
  using assms strptime_ymd_not_str[of v]
  by (cases v; simp add: validate_date_format_def validate_email_def)+

text \<open>
  Claim C8, as amended. For every input string, \<open>validate_date_format\<close> and
  \<open>validate_email\<close> return a boolean and do not raise; \<open>validate_date_format\<close>
  returns \<open>False\<close> for every string that does not parse as a date of the format
  \<open>%Y-%m-%d\<close>, and \<open>True\<close> for every string that does. (\<open>is_numeric\<close> is a boolean
  for every value: it is a total function to \<open>bool\<close>.)
\<close>

theorem validators_return_on_strings:
  "(\<exists>b. validate_date_format (PStr s) = Inr b) \<and>
   (\<exists>b. validate_email (PStr s) = Inr b) \<and>
   ((\<nexists>d. strptime_ymd (PStr s) = Inr d) \<longrightarrow> validate_date_format (PStr s) = Inr False) \<and>
   ((\<exists>d. strptime_ymd (PStr s) = Inr d) \<longrightarrow> validate_date_format (PStr s) = Inr True)"
  by (simp add: validate_date_format_str validate_email_def)

theorem validators_return_on_strings_witness:
  "validate_date_format (PStr ''2024-02-30'') = Inr False \<and>
   (\<exists>b. validate_email (PStr ''2024-02-30'') = Inr b)"
  using validators_return_on_strings[of "''2024-02-30''"]
  by (simp add: strptime_ymd_def regex_ymd_def month_alts_def day_alts_def
      is_digit_def digit_val_def days_in_month_def is_leap_def)

text \<open>
  The claim as stated fails: the validators are not total on input values. A null date
  or email, or a date given as the number 20240131, makes \<open>strptime\<close> and \<open>re.match\<close>
  raise \<open>TypeError\<close>, which the handler for \<open>ValueError\<close> does not catch.
\<close>

theorem validators_raise_counterexample:
  "validate_date_format PNone = Inl TypeError \<and> validate_email PNone = Inl TypeError \<and>
   validate_date_format (PInt 20240131) = Inl TypeError"
  by (simp add: validate_date_format_def validate_email_def strptime_ymd_def)

text \<open>The models of the two library calls on some strings.\<close>

lemma validate_date_format_examples:
  "validate_date_format (PStr ''2024-02-29'') = Inr True"
  "validate_date_format (PStr ''2023-02-29'') = Inr False"
  "validate_date_format (PStr ''2024-1-5'') = Inr True"
  "validate_date_format (PStr ''2024-13-01'') = Inr False"
  "validate_date_format (PStr ''31-01-2024'') = Inr False"
  "validate_date_format (PStr ''2024-01-31x'') = Inr False"
  "validate_date_format (PStr []) = Inr False"
  by (simp_all add: validate_date_format_def strptime_ymd_def regex_ymd_def month_alts_def
      day_alts_def is_digit_def digit_val_def days_in_month_def is_leap_def)

lemma validate_email_examples:
  "validate_email (PStr ''a@b.c'') = Inr True"
  "validate_email (PStr ''a@b'') = Inr False"
  "validate_email (PStr ''a@.c'') = Inr False"
  "validate_email (PStr ''@b.c'') = Inr False"
  "validate_email (PStr []) = Inr False"
  by (simp_all add: validate_email_def email_match_def)

end
